theory Spec2Isabelle
  imports Complex_Main "HOL-Library.Signed_Division" "HOL-Library.Log_Nat"
begin

section \<open>The constant-product pool of \<open>src/py/amm.py\<close>\<close>

subsection \<open>Data model\<close>

text \<open>
  Python integers are unbounded, so reserves and amounts are \<^typ>\<open>int\<close>. The class
  \<open>PartialAmm\<close> has the three fields \<open>id\<close>, \<open>r0\<close> and \<open>r1\<close>; the first is renamed
  \<open>amm_id\<close> because \<open>id\<close> is the identity function of HOL.
\<close>

record PartialAmm =
  amm_id :: string
  r0 :: int
  r1 :: int

text \<open>
  Both \<open>raise\<close> statements of the class raise a \<open>RuntimeError\<close>; they differ in the
  message, which is built from two numbers. The two constructors below stand for the two
  messages and carry these numbers:
  \<^item> \<open>InsufficientReserve a0 r0\<close> is \<^verbatim>\<open>RuntimeError(f'a0 ({a0}) >= r0 ({self.r0})')\<close>,
  \<^item> \<open>ReserveExhausted a1 r1\<close> is \<^verbatim>\<open>RuntimeError(f'a1 ({a1}) >= r1 ({self.r1})')\<close>.

  \<open>ZeroDivisionError\<close> is what \<^verbatim>\<open>//\<close> and \<^verbatim>\<open>/\<close> raise on a zero divisor, where
  \<open>div\<close> of HOL would return \<open>0\<close>. \<open>OverflowError\<close> is what \<^verbatim>\<open>/\<close> raises on two integers
  whose quotient is beyond the range of a double.
\<close>

datatype error =
  InsufficientReserve int int
| ReserveExhausted int int
| ZeroDivisionError
| OverflowError

subsection \<open>Operations\<close>

text \<open>
  \<^verbatim>\<open>def divup(n, d): return (n + (d - 1)) // d\<close>

  Python's \<^verbatim>\<open>//\<close> on integers rounds towards minus infinity, as \<open>div\<close> on \<^typ>\<open>int\<close> does.
\<close>

definition divup :: "int \<Rightarrow> int \<Rightarrow> error + int" where
  "divup n d = (if d = 0 then Inl ZeroDivisionError else Inr ((n + (d - 1)) div d))"

text \<open>
  The constructor stores the reserves as given; the identifier is the tail of a fresh
  random UUID and is a parameter here.
\<close>

definition init :: "string \<Rightarrow> int \<Rightarrow> int \<Rightarrow> PartialAmm" where
  "init i a b = \<lparr>amm_id = i, r0 = a, r1 = b\<rparr>"

text \<open>The quotes read the pool and assign to none of its fields.\<close>

definition quoteBuy0 :: "PartialAmm \<Rightarrow> int \<Rightarrow> error + int" where
  "quoteBuy0 self a0 =
     (if a0 \<ge> r0 self then Inl (InsufficientReserve a0 (r0 self))
      else
        let k = r0 self * r1 self in
        case divup k (r0 self - a0) of
          Inl e \<Rightarrow> Inl e
        | Inr c \<Rightarrow> Inr (c - r1 self))"

definition quoteSell0 :: "PartialAmm \<Rightarrow> int \<Rightarrow> error + int" where
  "quoteSell0 self a0 =
     (let k = r0 self * r1 self in
      if r0 self + a0 = 0 then Inl ZeroDivisionError
      else
        let a1 = r1 self - k div (r0 self + a0) in
        if a1 \<ge> r1 self then Inl (ReserveExhausted a1 (r1 self))
        else Inr a1)"

text \<open>
  The mutating methods return what the call returns or raises, paired with the pool as
  it is after the call: an exception leaves the object alive, with whatever was assigned
  before the \<open>raise\<close>.
\<close>

definition buy0 :: "PartialAmm \<Rightarrow> int \<Rightarrow> (error + int) \<times> PartialAmm" where
  "buy0 self a0 =
     (case quoteBuy0 self a0 of
        Inl e \<Rightarrow> (Inl e, self)
      | Inr a1 \<Rightarrow> (Inr a1, self\<lparr>r0 := r0 self - a0, r1 := r1 self + a1\<rparr>))"

definition sell0 :: "PartialAmm \<Rightarrow> int \<Rightarrow> (error + int) \<times> PartialAmm" where
  "sell0 self a0 =
     (case quoteSell0 self a0 of
        Inl e \<Rightarrow> (Inl e, self)
      | Inr a1 \<Rightarrow> (Inr a1, self\<lparr>r0 := r0 self + a0, r1 := r1 self - a1\<rparr>))"

subsection \<open>True division of integers\<close>

text \<open>
  \<^verbatim>\<open>price0\<close> is \<^verbatim>\<open>self.r1 / self.r0\<close>, Python's true division of two integers. Its
  result is a float: the IEEE 754 double nearest to the exact quotient, a tie going to
  the double with the even significand; a quotient that rounds beyond the largest double
  raises \<open>OverflowError\<close>. A double is represented here by the rational number it
  denotes, so \<open>-0.0\<close> and \<open>0.0\<close> are the same value, as they are for Python's comparisons.

  \<open>round_half_even n d\<close> is the integer nearest to \<open>n / d\<close> for \<open>d > 0\<close>, ties to even.
\<close>

definition round_half_even :: "int \<Rightarrow> int \<Rightarrow> int" where
  "round_half_even n d =
     (let q = n div d; r = n mod d in
      if 2 * r < d then q
      else if d < 2 * r then q + 1
      else if even q then q else q + 1)"

text \<open>
  \<open>floor_log2 n d\<close> is the binary exponent of \<open>n / d\<close> for \<open>n, d > 0\<close>: the integer \<open>e\<close> with
  \<open>2\<^sup>e \<le> n / d < 2\<^bsup>e + 1\<^esup>\<close>. It is found from the bit lengths of \<open>n\<close> and \<open>d\<close>
  (\<^verbatim>\<open>int.bit_length\<close>), which fix it up to one.
\<close>

definition floor_log2 :: "int \<Rightarrow> int \<Rightarrow> int" where
  "floor_log2 n d =
     (let e0 = bitlen n - bitlen d in
      if (if 0 \<le> e0 then d * 2 ^ nat e0 \<le> n else d \<le> n * 2 ^ nat (- e0))
      then e0 else e0 - 1)"

definition pow2 :: "int \<Rightarrow> rat" where
  "pow2 e = (if 0 \<le> e then 2 ^ nat e else 1 / 2 ^ nat (- e))"

text \<open>
  A double has 53 significant bits and a binary exponent of at least \<open>-1022\<close>, below
  which the spacing of the subnormal numbers stays \<open>2\<^bsup>-1074\<^esup>\<close>. So the doubles around
  a quotient of exponent \<open>e\<close> are the multiples of \<open>2\<^sup>s\<close> with \<open>s = max e (-1022) - 52\<close>,
  and the nearest one is \<open>m * 2\<^sup>s\<close> for the integer \<open>m\<close> nearest to the quotient
  divided by \<open>2\<^sup>s\<close>.
\<close>

definition double_nearest :: "int \<Rightarrow> int \<Rightarrow> rat" where
  "double_nearest n d =
     (let s = max (floor_log2 n d) (- 1022) - 52;
          m = (if 0 \<le> s then round_half_even n (d * 2 ^ nat s)
               else round_half_even (n * 2 ^ nat (- s)) d)
      in rat_of_int m * pow2 s)"

definition int_truediv :: "int \<Rightarrow> int \<Rightarrow> error + rat" where
  "int_truediv a b =
     (if b = 0 then Inl ZeroDivisionError
      else if a = 0 then Inr 0
      else
        let v = double_nearest \<bar>a\<bar> \<bar>b\<bar>
        in if 2 ^ 1024 \<le> v then Inl OverflowError
           else Inr (if (a < 0) = (b < 0) then v else - v))"

definition price0 :: "PartialAmm \<Rightarrow> error + rat" where
  "price0 self = int_truediv (r1 self) (r0 self)"

text \<open>\<^verbatim>\<open>donate0\<close> assigns \<open>r0\<close> first and evaluates the price afterwards.\<close>

definition donate0 :: "PartialAmm \<Rightarrow> int \<Rightarrow> (error + rat) \<times> PartialAmm" where
  "donate0 self a0 =
     (let self' = self\<lparr>r0 := r0 self + a0\<rparr> in (price0 self', self'))"

text \<open>The product \<open>k\<close> that the quotes and \<^verbatim>\<open>__str__\<close> compute from the reserves.\<close>

definition k_of :: "PartialAmm \<Rightarrow> int" where
  "k_of self = r0 self * r1 self"

section \<open>Rounding of the two divisions\<close>

lemma divup_int_ceiling:
  fixes n d :: int
  assumes "0 < d"
  shows "(n + (d - 1)) div d = \<lceil>real_of_int n / real_of_int d\<rceil>"
proof -
  define q where "q = n div d"
  define r where "r = n mod d"
  have n: "n = d * q + r" by (simp add: q_def r_def)
  have r: "0 \<le> r" "r < d"
    using assms by (simp_all add: r_def)
  have "(n + (d - 1)) div d = - ((- n) div d)"
  proof (cases "r = 0")
    case True
    have "n + (d - 1) = d * q + (d - 1)" using True n by simp
    then have a: "(n + (d - 1)) div d = q"
      using assms int_div_pos_eq [of "n + (d - 1)" d q "d - 1"] by simp
    have "- n = d * (- q) + 0" using True n by simp
    then have b: "(- n) div d = - q"
      using assms int_div_pos_eq [of "- n" d "- q" 0] by simp
    from a b show ?thesis by simp
  next
    case False
    with r have r': "0 < r" by simp
    have "n + (d - 1) = d * (q + 1) + (r - 1)"
      by (simp add: n algebra_simps)
    then have a: "(n + (d - 1)) div d = q + 1"
      using r r' int_div_pos_eq [of "n + (d - 1)" d "q + 1" "r - 1"] by simp
    have "- n = d * (- (q + 1)) + (d - r)"
      by (simp add: n algebra_simps)
    then have b: "(- n) div d = - (q + 1)"
      using r r' int_div_pos_eq [of "- n" d "- (q + 1)" "d - r"] by simp
    from a b show ?thesis by simp
  qed
  then show ?thesis
    by (simp add: ceiling_divide_eq_div)
qed

lemma divup_int_bounds:
  fixes n d :: int
  assumes "0 < d"
  shows "n \<le> d * ((n + (d - 1)) div d)" and "d * ((n + (d - 1)) div d) < n + d"
proof -
  define m where "m = n + (d - 1)"
  have eq: "d * (m div d) = m - m mod d"
    by (simp add: minus_mod_eq_mult_div)
  have "0 \<le> m mod d" and "m mod d < d"
    using assms by simp_all
  then have "n \<le> m - m mod d" and "m - m mod d < n + d"
    by (simp_all add: m_def)
  then show "n \<le> d * ((n + (d - 1)) div d)" and "d * ((n + (d - 1)) div d) < n + d"
    using eq by (simp_all add: m_def)
qed

lemma floor_div_int_bounds:
  fixes k d :: int
  assumes "0 < d"
  shows "d * (k div d) \<le> k" and "k - d * (k div d) < d"
proof -
  have eq: "d * (k div d) = k - k mod d"
    by (simp add: minus_mod_eq_mult_div)
  have "0 \<le> k mod d" and "k mod d < d"
    using assms by simp_all
  then show "d * (k div d) \<le> k" and "k - d * (k div d) < d"
    using eq by simp_all
qed

section \<open>Rounding of the true division\<close>

lemma round_half_even_int:
  fixes n d :: int
  assumes "0 < d"
  defines "m \<equiv> round_half_even n d"
  shows "2 * (m * d) - d \<le> 2 * n" and "2 * n \<le> 2 * (m * d) + d"
    and "2 * n = 2 * (m * d) + d \<Longrightarrow> even m"
    and "2 * n = 2 * (m * d) - d \<Longrightarrow> even m"
proof -
  define q where "q = n div d"
  define r where "r = n mod d"
  have n: "n = q * d + r" by (simp add: q_def r_def)
  have r: "0 \<le> r" "r < d" using assms(1) by (simp_all add: r_def)
  have m: "m = (if 2 * r < d then q else if d < 2 * r then q + 1
                else if even q then q else q + 1)"
    by (simp add: m_def round_half_even_def Let_def q_def r_def)
  consider (lo) "2 * r < d" | (hi) "d < 2 * r" | (te) "2 * r = d" "even q"
    | (to) "2 * r = d" "odd q"
    by linarith
  then show "2 * (m * d) - d \<le> 2 * n" and "2 * n \<le> 2 * (m * d) + d"
    and "2 * n = 2 * (m * d) + d \<Longrightarrow> even m"
    and "2 * n = 2 * (m * d) - d \<Longrightarrow> even m"
    using r by (cases; simp add: m n algebra_simps)+
qed


lemma round_half_even_rat:
  fixes n d :: int
  assumes "0 < d"
  defines "m \<equiv> round_half_even n d"
  defines "x \<equiv> rat_of_int n / rat_of_int d"
  shows "rat_of_int m - 1 / 2 \<le> x" and "x \<le> rat_of_int m + 1 / 2"
    and "x = rat_of_int m + 1 / 2 \<Longrightarrow> even m"
    and "x = rat_of_int m - 1 / 2 \<Longrightarrow> even m"
proof -
  have d: "0 < rat_of_int d" using assms(1) by simp
  have xd: "x * rat_of_int d = rat_of_int n"
    using d by (simp add: x_def)
  have "rat_of_int (2 * (m * d) - d) \<le> rat_of_int (2 * n)"
    unfolding m_def using round_half_even_int(1) [OF assms(1)] by (simp only: of_int_le_iff)
  then have "(rat_of_int m - 1 / 2) * rat_of_int d \<le> x * rat_of_int d"
    by (simp add: xd algebra_simps)
  then show "rat_of_int m - 1 / 2 \<le> x"
    using d by (simp only: mult_le_cancel_right_pos)
  have "rat_of_int (2 * n) \<le> rat_of_int (2 * (m * d) + d)"
    unfolding m_def using round_half_even_int(2) [OF assms(1)] by (simp only: of_int_le_iff)
  then have "x * rat_of_int d \<le> (rat_of_int m + 1 / 2) * rat_of_int d"
    by (simp add: xd algebra_simps)
  then show "x \<le> rat_of_int m + 1 / 2"
    using d by (simp only: mult_le_cancel_right_pos)
  show "even m" if "x = rat_of_int m + 1 / 2"
  proof -
    from that have "x * rat_of_int d = (rat_of_int m + 1 / 2) * rat_of_int d" by simp
    then have "rat_of_int (2 * n) = rat_of_int (2 * (m * d) + d)"
      by (simp add: xd algebra_simps)
    then have "2 * n = 2 * (m * d) + d" by (simp only: of_int_eq_iff)
    then show ?thesis
      unfolding m_def by (rule round_half_even_int(3) [OF assms(1)])
  qed
  show "even m" if "x = rat_of_int m - 1 / 2"
  proof -
    from that have "x * rat_of_int d = (rat_of_int m - 1 / 2) * rat_of_int d" by simp
    then have "rat_of_int (2 * n) = rat_of_int (2 * (m * d) - d)"
      by (simp add: xd algebra_simps)
    then have "2 * n = 2 * (m * d) - d" by (simp only: of_int_eq_iff)
    then show ?thesis
      unfolding m_def by (rule round_half_even_int(4) [OF assms(1)])
  qed
qed

lemma nearest_mono:
  fixes x y :: rat and m k :: int
  assumes "x \<le> y"
    and "rat_of_int m - 1 / 2 \<le> x" and "x = rat_of_int m - 1 / 2 \<Longrightarrow> even m"
    and "y \<le> rat_of_int k + 1 / 2" and "y = rat_of_int k + 1 / 2 \<Longrightarrow> even k"
  shows "m \<le> k"
proof (rule ccontr)
  assume "\<not> m \<le> k"
  then have "k + 1 \<le> m" by simp
  then have km: "rat_of_int k + 1 \<le> rat_of_int m"
    by (metis of_int_1 of_int_add of_int_le_iff)
  from km assms(1,2,4) have x: "x = rat_of_int m - 1 / 2" and y: "y = rat_of_int k + 1 / 2"
    and e: "rat_of_int m = rat_of_int k + 1"
    by linarith+
  from e have "m = k + 1"
    by (metis of_int_1 of_int_add of_int_eq_iff)
  moreover have "even m" using x by (rule assms(3))
  moreover have "even k" using y by (rule assms(5))
  ultimately show False by simp
qed

lemma nearest_le:
  fixes x :: rat and m K :: int
  assumes "x \<le> rat_of_int K"
    and "rat_of_int m - 1 / 2 \<le> x" and "x = rat_of_int m - 1 / 2 \<Longrightarrow> even m"
  shows "m \<le> K"
proof (rule nearest_mono [OF assms(1) assms(2) assms(3)])
  show "rat_of_int K \<le> rat_of_int K + 1 / 2" by simp
  show "even K" if "rat_of_int K = rat_of_int K + 1 / 2"
    using that by simp
qed

lemma nearest_ge:
  fixes y :: rat and k K :: int
  assumes "rat_of_int K \<le> y"
    and "y \<le> rat_of_int k + 1 / 2" and "y = rat_of_int k + 1 / 2 \<Longrightarrow> even k"
  shows "K \<le> k"
proof (rule nearest_mono [OF assms(1) _ _ assms(2) assms(3)])
  show "rat_of_int K - 1 / 2 \<le> rat_of_int K" by simp
  show "even K" if "rat_of_int K = rat_of_int K - 1 / 2"
    using that by simp
qed

lemma pow2_powi: "pow2 e = 2 powi e"
  by (simp add: pow2_def power_int_def power_one_over inverse_eq_divide)


lemma powi2_add: "(2::rat) powi (a + b) = 2 powi a * 2 powi b"
  by (simp add: power_int_add)

lemma bitlen_powi_bounds:
  fixes n :: int
  assumes "0 < n"
  shows "2 powi (bitlen n - 1) \<le> rat_of_int n" and "rat_of_int n < 2 powi (bitlen n)"
proof -
  have b: "1 \<le> bitlen n"
    using assms bitlen_eq_zero_iff [of n] bitlen_nonneg [of n] by linarith
  have lo: "2 ^ nat (bitlen n - 1) \<le> n" and hi: "n < 2 ^ nat (bitlen n)"
    using bitlen_bounds [OF assms] by simp_all
  have "rat_of_int (2 ^ nat (bitlen n - 1)) \<le> rat_of_int n"
    using lo by (simp only: of_int_le_iff)
  then show "2 powi (bitlen n - 1) \<le> rat_of_int n"
    using b by (simp add: power_int_def)
  have "rat_of_int n < rat_of_int (2 ^ nat (bitlen n))"
    using hi by (simp only: of_int_less_iff)
  then show "rat_of_int n < 2 powi (bitlen n)"
    using b by (simp add: power_int_def)
qed

lemma floor_log2_cond:
  fixes n d e0 :: int
  assumes "0 < d"
  shows "(if 0 \<le> e0 then d * 2 ^ nat e0 \<le> n else d \<le> n * 2 ^ nat (- e0))
           = (2 powi e0 \<le> rat_of_int n / rat_of_int d)"
proof (cases "0 \<le> e0")
  case True
  have "(d * 2 ^ nat e0 \<le> n) = (rat_of_int (d * 2 ^ nat e0) \<le> rat_of_int n)"
    by (simp only: of_int_le_iff)
  also have "\<dots> = (2 powi e0 \<le> rat_of_int n / rat_of_int d)"
    using True assms by (simp add: power_int_def field_simps)
  finally show ?thesis using True by simp
next
  case False
  have "(d \<le> n * 2 ^ nat (- e0)) = (rat_of_int d \<le> rat_of_int (n * 2 ^ nat (- e0)))"
    by (simp only: of_int_le_iff)
  also have "\<dots> = (2 powi e0 \<le> rat_of_int n / rat_of_int d)"
    using False assms by (simp add: power_int_def field_simps)
  finally show ?thesis using False by simp
qed

lemma floor_log2_bounds:
  fixes n d :: int
  assumes "0 < n" and "0 < d"
  defines "x \<equiv> rat_of_int n / rat_of_int d"
  shows "2 powi (floor_log2 n d) \<le> x" and "x < 2 powi (floor_log2 n d + 1)"
proof -
  define e0 where "e0 = bitlen n - bitlen d"
  have d: "0 < rat_of_int d" and n: "0 < rat_of_int n" using assms by simp_all
  have fl: "floor_log2 n d = (if 2 powi e0 \<le> x then e0 else e0 - 1)"
    unfolding floor_log2_def Let_def e0_def [symmetric] x_def
    by (simp only: floor_log2_cond [OF assms(2)])
  have up: "x < 2 powi (e0 + 1)"
  proof -
    have "rat_of_int n < 2 powi (bitlen n)"
      by (rule bitlen_powi_bounds(2) [OF assms(1)])
    also have "(2::rat) powi (bitlen n) = 2 powi (e0 + 1) * 2 powi (bitlen d - 1)"
      using powi2_add [of "e0 + 1" "bitlen d - 1"] by (simp add: e0_def)
    also have "\<dots> \<le> 2 powi (e0 + 1) * rat_of_int d"
      using bitlen_powi_bounds(1) [OF assms(2)] by (simp add: mult_left_mono)
    finally show ?thesis
      using d by (simp add: x_def field_simps)
  qed
  have lo: "2 powi (e0 - 1) \<le> x"
  proof -
    have "2 powi (e0 - 1) * rat_of_int d \<le> 2 powi (e0 - 1) * 2 powi (bitlen d)"
      using bitlen_powi_bounds(2) [OF assms(2)] by (simp add: mult_left_mono)
    also have "\<dots> = 2 powi (bitlen n - 1)"
      using powi2_add [of "e0 - 1" "bitlen d"] by (simp add: e0_def)
    also have "\<dots> \<le> rat_of_int n"
      by (rule bitlen_powi_bounds(1) [OF assms(1)])
    finally show ?thesis
      using d by (simp add: x_def field_simps)
  qed
  show "2 powi (floor_log2 n d) \<le> x"
    using lo by (simp add: fl)
  show "x < 2 powi (floor_log2 n d + 1)"
    using up by (simp add: fl)
qed

lemma powi_exponent_mono:
  fixes x y :: rat and e f :: int
  assumes "x \<le> y" and "2 powi e \<le> x" and "y < 2 powi (f + 1)"
  shows "e \<le> f"
proof (rule ccontr)
  assume "\<not> e \<le> f"
  then have "f + 1 \<le> e" by simp
  then have "(2::rat) powi (f + 1) \<le> 2 powi e"
    by (intro power_int_increasing) simp_all
  with assms show False by linarith
qed


lemma double_nearest_struct:
  fixes n d :: int
  assumes "0 < n" and "0 < d"
  defines "x \<equiv> rat_of_int n / rat_of_int d"
  defines "s \<equiv> max (floor_log2 n d) (- 1022) - 52"
  shows "\<exists>m. double_nearest n d = rat_of_int m * 2 powi s
           \<and> rat_of_int m - 1 / 2 \<le> x / 2 powi s
           \<and> x / 2 powi s \<le> rat_of_int m + 1 / 2
           \<and> (x / 2 powi s = rat_of_int m + 1 / 2 \<longrightarrow> even m)
           \<and> (x / 2 powi s = rat_of_int m - 1 / 2 \<longrightarrow> even m)"
proof (cases "0 \<le> s")
  case True
  define D where "D = d * 2 ^ nat s"
  define m where "m = round_half_even n D"
  have D: "0 < D" using assms(2) by (simp add: D_def)
  have q: "rat_of_int n / rat_of_int D = x / 2 powi s"
    using True by (simp add: D_def x_def power_int_def)
  have "double_nearest n d = rat_of_int m * 2 powi s"
    using True by (simp add: double_nearest_def Let_def s_def [symmetric] m_def D_def pow2_powi)
  then show ?thesis
    using round_half_even_rat [OF D, of n] unfolding q m_def [symmetric] by blast
next
  case False
  define N where "N = n * 2 ^ nat (- s)"
  define m where "m = round_half_even N d"
  have q: "rat_of_int N / rat_of_int d = x / 2 powi s"
    using False by (simp add: N_def x_def power_int_def field_simps)
  have "double_nearest n d = rat_of_int m * 2 powi s"
    using False by (simp add: double_nearest_def Let_def s_def [symmetric] m_def N_def pow2_powi)
  then show ?thesis
    using round_half_even_rat [OF assms(2), of N] unfolding q m_def [symmetric] by blast
qed

lemma double_nearest_mono:
  fixes n d n' d' :: int
  assumes "0 < n" and "0 < d" and "0 < n'" and "0 < d'"
    and le: "rat_of_int n / rat_of_int d \<le> rat_of_int n' / rat_of_int d'"
  shows "double_nearest n d \<le> double_nearest n' d'"
proof -
  define x where "x = rat_of_int n / rat_of_int d"
  define y where "y = rat_of_int n' / rat_of_int d'"
  define e where "e = floor_log2 n d"
  define f where "f = floor_log2 n' d'"
  define s where "s = max e (- 1022) - 52"
  define t where "t = max f (- 1022) - 52"
  have xy: "x \<le> y" using le by (simp add: x_def y_def)
  have ex: "2 powi e \<le> x" "x < 2 powi (e + 1)"
    unfolding e_def x_def by (rule floor_log2_bounds [OF assms(1,2)])+
  have fy: "2 powi f \<le> y" "y < 2 powi (f + 1)"
    unfolding f_def y_def by (rule floor_log2_bounds [OF assms(3,4)])+
  have ef: "e \<le> f"
    using xy ex(1) fy(2) by (rule powi_exponent_mono)
  then have st: "s \<le> t" by (simp add: s_def t_def)
  obtain m where m: "double_nearest n d = rat_of_int m * 2 powi s"
    and m_lo: "rat_of_int m - 1 / 2 \<le> x / 2 powi s"
    and m_tie: "x / 2 powi s = rat_of_int m - 1 / 2 \<longrightarrow> even m"
    using double_nearest_struct [OF assms(1,2)] unfolding x_def s_def e_def by blast
  obtain k where k: "double_nearest n' d' = rat_of_int k * 2 powi t"
    and k_hi: "y / 2 powi t \<le> rat_of_int k + 1 / 2"
    and k_tie: "y / 2 powi t = rat_of_int k + 1 / 2 \<longrightarrow> even k"
    using double_nearest_struct [OF assms(3,4)] unfolding y_def t_def f_def by blast
  have ps: "(0::rat) < 2 powi s" and pt: "(0::rat) < 2 powi t" by simp_all
  show ?thesis
  proof (cases "s = t")
    case True
    have "x / 2 powi s \<le> y / 2 powi t"
      using xy ps by (simp add: True divide_right_mono)
    then have "m \<le> k"
      using m_lo m_tie k_hi k_tie by (intro nearest_mono [of "x / 2 powi s" "y / 2 powi t"]) blast+
    then have "rat_of_int m * 2 powi s \<le> rat_of_int k * 2 powi s"
      using ps by (simp add: mult_right_mono)
    then show ?thesis by (simp add: m k True)
  next
    case False
    with st have lt: "s + 1 \<le> t" by simp
    then have tf: "t = f - 52" and es: "e \<le> s + 52"
      by (simp_all add: s_def t_def max_def split: if_splits)
    have "x < 2 powi (s + 53)"
    proof -
      have "(2::rat) powi (e + 1) \<le> 2 powi (s + 53)"
        using es by (intro power_int_increasing) simp_all
      with ex(2) show ?thesis by simp
    qed
    also have "(2::rat) powi (s + 53) = 2 powi 53 * 2 powi s"
      using powi2_add [of 53 s] by (simp add: add.commute)
    finally have "x / 2 powi s \<le> rat_of_int (2 ^ 53)"
      using ps by (simp add: field_simps)
    then have "m \<le> 2 ^ 53"
      using m_lo m_tie by (intro nearest_le [of "x / 2 powi s"]) blast+
    then have "rat_of_int m \<le> rat_of_int (2 ^ 53)"
      by (simp only: of_int_le_iff)
    then have "rat_of_int m * 2 powi s \<le> 2 powi 53 * 2 powi s"
      using ps by (simp add: mult_right_mono)
    also have "\<dots> = 2 powi (s + 53)"
      using powi2_add [of 53 s] by (simp add: add.commute)
    also have "\<dots> \<le> 2 powi (t + 52)"
      using lt by (intro power_int_increasing) simp_all
    finally have a: "rat_of_int m * 2 powi s \<le> 2 powi (t + 52)" .
    have "(2::rat) powi 52 * 2 powi t = 2 powi (t + 52)"
      using powi2_add [of 52 t] by (simp add: add.commute)
    also have "\<dots> \<le> y"
      using fy(1) by (simp add: tf)
    finally have "rat_of_int (2 ^ 52) \<le> y / 2 powi t"
      using pt by (simp add: field_simps)
    then have "2 ^ 52 \<le> k"
      using k_hi k_tie by (intro nearest_ge [of _ "y / 2 powi t"]) blast+
    then have "rat_of_int (2 ^ 52) \<le> rat_of_int k"
      by (simp only: of_int_le_iff)
    then have "2 powi 52 * 2 powi t \<le> rat_of_int k * 2 powi t"
      using pt by (simp add: mult_right_mono)
    then have b: "2 powi (t + 52) \<le> rat_of_int k * 2 powi t"
      using powi2_add [of 52 t] by (simp add: add.commute)
    from a b show ?thesis by (simp add: m k)
  qed
qed

lemma int_truediv_zero: "b \<noteq> 0 \<Longrightarrow> int_truediv 0 b = Inr 0"
  by (simp add: int_truediv_def)

lemma int_truediv_pos:
  assumes "0 < a" and "0 < b"
  shows "int_truediv a b =
           (if 2 ^ 1024 \<le> double_nearest a b then Inl OverflowError
            else Inr (double_nearest a b))"
  using assms by (simp add: int_truediv_def Let_def)

lemma int_truediv_mono:
  assumes "0 < a" and "0 < b" and "0 < b'" and "b \<le> b'"
    and "int_truediv a b = Inr p"
  shows "\<exists>p'. int_truediv a b' = Inr p' \<and> p' \<le> p"
proof -
  have "rat_of_int a / rat_of_int b' \<le> rat_of_int a / rat_of_int b"
    using assms(1,2,4) by (simp add: frac_le)
  then have le: "double_nearest a b' \<le> double_nearest a b"
    using assms(1-3) by (intro double_nearest_mono) simp_all
  from assms(5) have p: "double_nearest a b = p" and "\<not> 2 ^ 1024 \<le> double_nearest a b"
    unfolding int_truediv_pos [OF assms(1,2)] by (simp_all split: if_splits)
  with le have "\<not> 2 ^ 1024 \<le> double_nearest a b'" by simp
  then have "int_truediv a b' = Inr (double_nearest a b')"
    unfolding int_truediv_pos [OF assms(1,3)] by simp
  with le p show ?thesis by simp
qed

lemma double_nearest_overflow:
  fixes n d :: int
  assumes "0 < n" and "0 < d" and big: "2 ^ 1024 * d \<le> n"
  shows "2 ^ 1024 \<le> double_nearest n d"
proof -
  define x where "x = rat_of_int n / rat_of_int d"
  define e where "e = floor_log2 n d"
  define s where "s = max e (- 1022) - 52"
  have "rat_of_int (2 ^ 1024 * d) \<le> rat_of_int n"
    using big by (simp only: of_int_le_iff)
  then have x: "2 powi 1024 \<le> x"
    using assms(2) by (simp add: x_def field_simps)
  have ex: "2 powi e \<le> x" "x < 2 powi (e + 1)"
    unfolding e_def x_def by (rule floor_log2_bounds [OF assms(1,2)])+
  have e: "1024 \<le> e"
    using order_refl x ex(2) by (rule powi_exponent_mono)
  then have s: "s = e - 52" by (simp add: s_def)
  obtain m where m: "double_nearest n d = rat_of_int m * 2 powi s"
    and m_hi: "x / 2 powi s \<le> rat_of_int m + 1 / 2"
    and m_tie: "x / 2 powi s = rat_of_int m + 1 / 2 \<longrightarrow> even m"
    using double_nearest_struct [OF assms(1,2)] unfolding x_def s_def e_def by blast
  have ps: "(0::rat) < 2 powi s" by simp
  have pe: "(2::rat) powi 52 * 2 powi s = 2 powi e"
    using powi2_add [of 52 s] by (simp add: s)
  with ex(1) have "rat_of_int (2 ^ 52) \<le> x / 2 powi s"
    using ps by (simp add: field_simps)
  then have "2 ^ 52 \<le> m"
    using m_hi m_tie by (intro nearest_ge [of _ "x / 2 powi s"]) blast+
  then have "rat_of_int (2 ^ 52) \<le> rat_of_int m"
    by (simp only: of_int_le_iff)
  then have "2 powi 52 * 2 powi s \<le> rat_of_int m * 2 powi s"
    using ps by (simp add: mult_right_mono)
  then have "2 powi e \<le> double_nearest n d"
    by (simp only: pe m)
  moreover have "(2::rat) powi 1024 \<le> 2 powi e"
    using e by (intro power_int_increasing) simp_all
  ultimately have "(2::rat) powi 1024 \<le> double_nearest n d" by simp
  then show ?thesis by simp
qed

lemma int_truediv_overflow:
  assumes "0 < a" and "0 < b" and "2 ^ 1024 * b \<le> a"
  shows "int_truediv a b = Inl OverflowError"
  using double_nearest_overflow [OF assms] by (simp add: int_truediv_pos [OF assms(1,2)])

lemma int_truediv_third:
  "int_truediv 1 3 = Inr (6004799503160661 / 18014398509481984)"
  unfolding int_truediv_def double_nearest_def Let_def
  apply (simp add: floor_log2_def compute_bitlen)
  apply (simp add: round_half_even_def pow2_def)
  done

lemma int_truediv_one: "int_truediv 10000 10000 = Inr 1"
  unfolding int_truediv_def double_nearest_def Let_def
  apply (simp add: floor_log2_def compute_bitlen)
  apply (simp add: round_half_even_def pow2_def)
  done

lemma int_truediv_quarter: "int_truediv 5000 20000 = Inr (1 / 4)"
  unfolding int_truediv_def double_nearest_def Let_def
  apply (simp add: floor_log2_def compute_bitlen)
  apply (simp add: round_half_even_def pow2_def)
  done

lemma int_truediv_half: "int_truediv 10000 20000 = Inr (1 / 2)"
  unfolding int_truediv_def double_nearest_def Let_def
  apply (simp add: floor_log2_def compute_bitlen)
  apply (simp add: round_half_even_def pow2_def)
  done

lemma int_truediv_small:
  "int_truediv 1 1152921504606846976 = Inr (1 / 1152921504606846976)"
  unfolding int_truediv_def double_nearest_def Let_def
  apply (simp add: floor_log2_def compute_bitlen)
  apply (simp add: round_half_even_def pow2_def)
  done

lemma int_truediv_small_next:
  "int_truediv 1 1152921504606846977 = Inr (1 / 1152921504606846976)"
  unfolding int_truediv_def double_nearest_def Let_def
  apply (simp add: floor_log2_def compute_bitlen)
  apply (simp add: round_half_even_def pow2_def)
  done

section \<open>What the quotes return\<close>

lemma divup_pos:
  "0 < d \<Longrightarrow> divup n d = Inr ((n + (d - 1)) div d)"
  by (simp add: divup_def)

lemma quoteBuy0_below:
  "a0 < r0 self \<Longrightarrow>
     quoteBuy0 self a0 =
       Inr ((r0 self * r1 self + (r0 self - a0 - 1)) div (r0 self - a0) - r1 self)"
  by (simp add: quoteBuy0_def divup_def)

lemma quoteBuy0_above:
  "r0 self \<le> a0 \<Longrightarrow> quoteBuy0 self a0 = Inl (InsufficientReserve a0 (r0 self))"
  by (simp add: quoteBuy0_def)

lemma quoteSell0_nonzero:
  "r0 self + a0 \<noteq> 0 \<Longrightarrow>
     quoteSell0 self a0 =
       (if r1 self - (r0 self * r1 self) div (r0 self + a0) \<ge> r1 self
        then Inl (ReserveExhausted (r1 self - (r0 self * r1 self) div (r0 self + a0)) (r1 self))
        else Inr (r1 self - (r0 self * r1 self) div (r0 self + a0)))"
  by (simp add: quoteSell0_def Let_def)

section \<open>What the mutating methods do\<close>

lemma buy0_below:
  assumes "a0 < r0 self"
  defines "c \<equiv> (r0 self * r1 self + (r0 self - a0 - 1)) div (r0 self - a0)"
  shows "buy0 self a0 = (Inr (c - r1 self), self\<lparr>r0 := r0 self - a0, r1 := c\<rparr>)"
  using assms(1) by (simp add: buy0_def quoteBuy0_below c_def)

lemma buy0_paid_bounds:
  assumes "a0 < r0 self"
  defines "c \<equiv> (r0 self * r1 self + (r0 self - a0 - 1)) div (r0 self - a0)"
  shows "r0 self * r1 self \<le> (r0 self - a0) * c"
    and "(r0 self - a0) * c < r0 self * r1 self + (r0 self - a0)"
proof -
  from assms(1) have d: "0 < r0 self - a0" by simp
  have c: "c = (r0 self * r1 self + ((r0 self - a0) - 1)) div (r0 self - a0)"
    by (simp add: c_def)
  show "r0 self * r1 self \<le> (r0 self - a0) * c"
    unfolding c by (rule divup_int_bounds(1) [OF d])
  show "(r0 self - a0) * c < r0 self * r1 self + (r0 self - a0)"
    unfolding c by (rule divup_int_bounds(2) [OF d])
qed

lemma floor_is_truncation:
  fixes k d :: int
  assumes "0 \<le> k" and "0 < d"
  shows "k div d = k sdiv d"
  using assms by (simp add: signed_divide_int_def sgn_if)

lemma donate0_eq:
  "donate0 self a0 = (price0 (self\<lparr>r0 := r0 self + a0\<rparr>), self\<lparr>r0 := r0 self + a0\<rparr>)"
  by (simp add: donate0_def Let_def)

lemma donate0_overflow:
  "price0 (init i 1 (10 ^ 400)) = Inl OverflowError
   \<and> fst (donate0 (init i 1 (10 ^ 400)) 1) = Inl OverflowError"
  using int_truediv_overflow [of "10 ^ 400" 1] int_truediv_overflow [of "10 ^ 400" 2]
  by (simp add: donate0_eq price0_def init_def)

lemma buy0_sell0_restores:
  assumes "0 < a" and "0 < b" and "0 < a0" and "a0 < a"
  shows "\<exists>a1 self'.
           buy0 (init i a b) a0 = (Inr a1, self')
         \<and> sell0 self' a0 = (Inr a1, init i a b)"
proof -
  define self where "self = init i a b"
  have s: "r0 self = a" "r1 self = b"
    by (simp_all add: self_def init_def)
  define c where "c = (r0 self * r1 self + (r0 self - a0 - 1)) div (r0 self - a0)"
  define self' where "self' = self\<lparr>r0 := r0 self - a0, r1 := c\<rparr>"
  have lt: "a0 < r0 self" using assms s by simp
  have b: "buy0 self a0 = (Inr (c - r1 self), self')"
    unfolding c_def self'_def using lt by (rule buy0_below)
  have lo: "r0 self * r1 self \<le> (r0 self - a0) * c"
    unfolding c_def using lt by (rule buy0_paid_bounds(1))
  have hi: "(r0 self - a0) * c < r0 self * r1 self + (r0 self - a0)"
    unfolding c_def using lt by (rule buy0_paid_bounds(2))
  have "(r0 self - a0) * c = r0 self * r1 self + ((r0 self - a0) * c - r0 self * r1 self)"
    by simp
  moreover have "0 \<le> (r0 self - a0) * c - r0 self * r1 self"
    using lo by simp
  moreover have "(r0 self - a0) * c - r0 self * r1 self < r0 self"
    using hi assms(3) by simp
  ultimately have q: "((r0 self - a0) * c) div r0 self = r1 self"
    by (rule int_div_pos_eq)
  have r': "r0 self' = r0 self - a0" "r1 self' = c"
    by (simp_all add: self'_def)
  have nz: "r0 self' + a0 \<noteq> 0"
    using assms s r' by simp
  have "quoteSell0 self' a0 = Inr (c - r1 self)"
    using quoteSell0_nonzero [OF nz] q assms(2) s by (simp add: r')
  then have "sell0 self' a0 = (Inr (c - r1 self), self'\<lparr>r0 := r0 self' + a0, r1 := r1 self' - (c - r1 self)\<rparr>)"
    by (simp add: sell0_def)
  then have "sell0 self' a0 = (Inr (c - r1 self), self)"
    by (simp add: r' self'_def)
  with b show ?thesis
    unfolding self_def [symmetric] by simp
qed

section \<open>The properties of the specification\<close>

text \<open>
  C1. With reserves \<open>r0 > 0\<close>, \<open>r1 > 0\<close> and an amount \<open>0 < a0 < r0\<close>, \<open>buy0\<close> returns some
  \<open>a1\<close>, and the product after the trade, \<open>(r0 - a0) * (r1 + a1)\<close>, is at least the product
  \<open>r0 * r1\<close> before it.
\<close>

theorem buy0_product_nondecreasing:
  assumes "0 < r0 self" and "0 < r1 self" and "0 < a0" and "a0 < r0 self"
  shows "\<exists>a1 self'. buy0 self a0 = (Inr a1, self')
           \<and> (r0 self - a0) * (r1 self + a1) \<ge> r0 self * r1 self
           \<and> r0 self' = r0 self - a0 \<and> r1 self' = r1 self + a1
           \<and> k_of self' \<ge> k_of self"
proof -
  define c where "c = (r0 self * r1 self + (r0 self - a0 - 1)) div (r0 self - a0)"
  have b: "buy0 self a0 = (Inr (c - r1 self), self\<lparr>r0 := r0 self - a0, r1 := c\<rparr>)"
    unfolding c_def using assms(4) by (rule buy0_below)
  have k: "r0 self * r1 self \<le> (r0 self - a0) * c"
    unfolding c_def using assms(4) by (rule buy0_paid_bounds(1))
  show ?thesis
    using b k by (simp add: k_of_def)
qed

theorem buy0_product_nondecreasing_witness:
  "buy0 (init ''ab12'' 10 7) 4 = (Inr 5, init ''ab12'' 6 12)
   \<and> (10 - 4) * (7 + 5) \<ge> (10::int) * 7
   \<and> k_of (init ''ab12'' 6 12) \<ge> k_of (init ''ab12'' 10 7)"
  using buy0_product_nondecreasing [of "init ''ab12'' 10 7" 4]
  by (simp add: buy0_def quoteBuy0_def divup_def init_def k_of_def)

text \<open>
  C2. On a freshly constructed pool with reserves \<open>r0 > 0\<close>, \<open>r1 > 0\<close> and for
  \<open>0 < a0 < r0\<close>, \<open>buy0 a0\<close> followed by \<open>sell0 a0\<close> both succeed and leave \<open>r0\<close> at its
  original value and \<open>r1\<close> at most at its original value.
\<close>

theorem buy0_then_sell0_round_trip:
  assumes "0 < a" and "0 < b" and "0 < a0" and "a0 < a"
  shows "\<exists>a1 self' a1' self''.
           buy0 (init i a b) a0 = (Inr a1, self')
         \<and> sell0 self' a0 = (Inr a1', self'')
         \<and> r0 self'' = r0 (init i a b) \<and> r1 self'' \<le> r1 (init i a b)"
proof -
  from buy0_sell0_restores [OF assms] obtain a1 self'
    where "buy0 (init i a b) a0 = (Inr a1, self')"
      and "sell0 self' a0 = (Inr a1, init i a b)"
    by blast
  then show ?thesis by force
qed

theorem buy0_then_sell0_round_trip_witness:
  "buy0 (init ''ab12'' 10 7) 4 = (Inr 5, init ''ab12'' 6 12)
   \<and> sell0 (init ''ab12'' 6 12) 4 = (Inr 5, init ''ab12'' 10 7)"
  using buy0_then_sell0_round_trip [of 10 7 4 "''ab12''"]
  by (simp add: buy0_def quoteBuy0_def divup_def sell0_def quoteSell0_def init_def)

text \<open>
  C3. For every pool and every amount \<open>a0\<close>, \<open>quoteBuy0\<close> raises the error of the first
  \<open>raise\<close> (insufficient reserve) exactly when \<open>a0 \<ge> r0\<close>, so also at \<open>a0 = r0\<close> and at
  \<open>a0 = r0 + 1\<close>, and returns the ceiling of the real quotient \<open>r0 * r1 / (r0 - a0)\<close> minus
  \<open>r1\<close> otherwise. The quote is a function of the pool: it assigns to no field, so \<open>r0\<close>
  and \<open>r1\<close> are as before the call.
\<close>

theorem quoteBuy0_spec:
  "quoteBuy0 self a0 =
     (if a0 \<ge> r0 self then Inl (InsufficientReserve a0 (r0 self))
      else Inr (\<lceil>real_of_int (r0 self * r1 self) / real_of_int (r0 self - a0)\<rceil> - r1 self))
   \<and> isl (quoteBuy0 self a0) = (a0 \<ge> r0 self)
   \<and> quoteBuy0 self (r0 self) = Inl (InsufficientReserve (r0 self) (r0 self))
   \<and> quoteBuy0 self (r0 self + 1) = Inl (InsufficientReserve (r0 self + 1) (r0 self))"
proof -
  have above: "quoteBuy0 self x = Inl (InsufficientReserve x (r0 self))" if "r0 self \<le> x" for x
    using that by (rule quoteBuy0_above)
  have below: "quoteBuy0 self a0 =
      Inr (\<lceil>real_of_int (r0 self * r1 self) / real_of_int (r0 self - a0)\<rceil> - r1 self)"
    if "a0 < r0 self"
  proof -
    from that have d: "0 < r0 self - a0" by simp
    have "r0 self * r1 self + (r0 self - a0 - 1) = r0 self * r1 self + ((r0 self - a0) - 1)"
      by simp
    then show ?thesis
      using divup_int_ceiling [OF d, of "r0 self * r1 self"] that
      by (simp only: quoteBuy0_below)
  qed
  show ?thesis
  proof (cases "a0 \<ge> r0 self")
    case True
    then show ?thesis by (simp add: above)
  next
    case False
    then have "a0 < r0 self" by simp
    from below [OF this] False show ?thesis by (simp add: above)
  qed
qed

theorem quoteBuy0_spec_witness:
  "quoteBuy0 (init ''ab12'' 10000 10000) 90 = Inr 91
   \<and> \<lceil>real_of_int (10000 * 10000) / real_of_int (10000 - 90)\<rceil> = (10091::int)
   \<and> quoteBuy0 (init ''ab12'' 10000 10000) 10000 = Inl (InsufficientReserve 10000 10000)
   \<and> quoteBuy0 (init ''ab12'' 10000 10000) 10001 = Inl (InsufficientReserve 10001 10000)"
  using quoteBuy0_spec [of "init ''ab12'' 10000 10000" 90]
    quoteBuy0_spec [of "init ''ab12'' 10000 10000" 10000]
  by (simp add: quoteBuy0_def divup_def init_def)

text \<open>
  C4. When \<open>r0 + a0 > 0\<close>, \<open>quoteSell0\<close> computes \<open>a1\<close> as \<open>r1\<close> minus the floor of the real
  quotient \<open>r0 * r1 / (r0 + a0)\<close>, raises the error of its \<open>raise\<close> (reserve exhausted)
  exactly when \<open>a1 \<ge> r1\<close>, and returns \<open>a1\<close> otherwise; it assigns to no field. Python's
  \<^verbatim>\<open>//\<close> rounds down; on non-negative reserves this is the division that truncates
  towards zero, \<open>sdiv\<close>.
\<close>

theorem quoteSell0_spec:
  assumes "0 < r0 self + a0"
  shows "(let a1 = r1 self - \<lfloor>real_of_int (r0 self * r1 self) / real_of_int (r0 self + a0)\<rfloor>
          in quoteSell0 self a0 =
               (if a1 \<ge> r1 self then Inl (ReserveExhausted a1 (r1 self)) else Inr a1)
             \<and> isl (quoteSell0 self a0) = (a1 \<ge> r1 self))
         \<and> (0 \<le> r0 self \<and> 0 \<le> r1 self \<longrightarrow>
              \<lfloor>real_of_int (r0 self * r1 self) / real_of_int (r0 self + a0)\<rfloor>
                = (r0 self * r1 self) sdiv (r0 self + a0))"
proof -
  have fl: "\<lfloor>real_of_int (r0 self * r1 self) / real_of_int (r0 self + a0)\<rfloor>
              = (r0 self * r1 self) div (r0 self + a0)"
    by (rule floor_divide_of_int_eq)
  have nz: "r0 self + a0 \<noteq> 0" using assms by simp
  have tr: "(r0 self * r1 self) div (r0 self + a0) = (r0 self * r1 self) sdiv (r0 self + a0)"
    if "0 \<le> r0 self" "0 \<le> r1 self"
    using that assms by (intro floor_is_truncation) simp_all
  show ?thesis
    unfolding fl Let_def using quoteSell0_nonzero [OF nz] tr by simp
qed

theorem quoteSell0_spec_witness:
  "quoteSell0 (init ''ab12'' 10000 10000) 10000 = Inr 5000
   \<and> (10000::int) - \<lfloor>real_of_int (10000 * 10000) / real_of_int (10000 + 10000)\<rfloor> = 5000
   \<and> (10000 * 10000) sdiv (10000 + 10000) = (5000::int)
   \<and> quoteSell0 (init ''ab12'' 1 1) 1 = Inl (ReserveExhausted 1 1)"
  using quoteSell0_spec [of "init ''ab12'' 10000 10000" 10000]
    quoteSell0_spec [of "init ''ab12'' 1 1" 1]
  by (simp add: quoteSell0_def init_def signed_divide_int_def)

text \<open>
  C5. When the quote succeeds with \<open>a1\<close>, \<open>buy0\<close> returns \<open>a1\<close> and leaves the pool with
  \<open>r0 - a0\<close> and \<open>r1 + a1\<close>, and \<open>sell0\<close> returns \<open>a1\<close> and leaves it with \<open>r0 + a0\<close> and
  \<open>r1 - a1\<close>; when the quote raises, the method raises the same error and the pool is
  as it was before the call.
\<close>

theorem buy0_sell0_atomic:
  "(\<forall>a1. quoteBuy0 self a0 = Inr a1 \<longrightarrow>
       fst (buy0 self a0) = Inr a1
     \<and> snd (buy0 self a0) = self\<lparr>r0 := r0 self - a0, r1 := r1 self + a1\<rparr>)
   \<and> (\<forall>e. quoteBuy0 self a0 = Inl e \<longrightarrow>
       fst (buy0 self a0) = Inl e \<and> snd (buy0 self a0) = self)
   \<and> (\<forall>a1. quoteSell0 self a0 = Inr a1 \<longrightarrow>
       fst (sell0 self a0) = Inr a1
     \<and> snd (sell0 self a0) = self\<lparr>r0 := r0 self + a0, r1 := r1 self - a1\<rparr>)
   \<and> (\<forall>e. quoteSell0 self a0 = Inl e \<longrightarrow>
       fst (sell0 self a0) = Inl e \<and> snd (sell0 self a0) = self)"
  by (simp add: buy0_def sell0_def)

theorem buy0_sell0_atomic_witness:
  "quoteBuy0 (init ''ab12'' 10 7) 4 = Inr 5
   \<and> buy0 (init ''ab12'' 10 7) 4 = (Inr 5, init ''ab12'' 6 12)
   \<and> quoteBuy0 (init ''ab12'' 10 7) 10 = Inl (InsufficientReserve 10 10)
   \<and> buy0 (init ''ab12'' 10 7) 10 = (Inl (InsufficientReserve 10 10), init ''ab12'' 10 7)
   \<and> quoteSell0 (init ''ab12'' 6 12) 4 = Inr 5
   \<and> sell0 (init ''ab12'' 6 12) 4 = (Inr 5, init ''ab12'' 10 7)
   \<and> quoteSell0 (init ''ab12'' 1 1) 1 = Inl (ReserveExhausted 1 1)
   \<and> sell0 (init ''ab12'' 1 1) 1 = (Inl (ReserveExhausted 1 1), init ''ab12'' 1 1)
   \<and> quoteSell0 (init ''ab12'' 3 5) (- 3) = Inl ZeroDivisionError
   \<and> sell0 (init ''ab12'' 3 5) (- 3) = (Inl ZeroDivisionError, init ''ab12'' 3 5)"
  using buy0_sell0_atomic [of "init ''ab12'' 10 7" 4]
    buy0_sell0_atomic [of "init ''ab12'' 10 7" 10]
    buy0_sell0_atomic [of "init ''ab12'' 6 12" 4]
    buy0_sell0_atomic [of "init ''ab12'' 1 1" 1]
    buy0_sell0_atomic [of "init ''ab12'' 3 5" "- 3"]
  by (simp add: buy0_def quoteBuy0_def divup_def sell0_def quoteSell0_def init_def)

text \<open>
  C6. For a numerator \<open>n \<ge> 0\<close> and a denominator \<open>d > 0\<close>, \<open>divup n d\<close> returns the
  ceiling of the real quotient \<open>n / d\<close>; in particular \<open>divup 10 5 = 2\<close> and
  \<open>divup 11 5 = 3\<close>.
\<close>

theorem divup_is_ceiling:
  assumes "0 \<le> n" and "0 < d"
  shows "divup n d = Inr \<lceil>real_of_int n / real_of_int d\<rceil>
         \<and> divup 10 5 = Inr 2 \<and> divup 11 5 = Inr 3"
  using assms by (simp add: divup_pos divup_int_ceiling)

theorem divup_is_ceiling_witness:
  "(0::int) \<le> 7 \<and> (0::int) < 2 \<and> divup 7 2 = Inr 4
   \<and> \<lceil>real_of_int 7 / real_of_int 2\<rceil> = 4"
  using divup_is_ceiling [of 7 2] by (simp add: divup_def)

text \<open>
  C7, as the specification has it: for every pool with \<open>r0 > 0\<close> and every \<open>a0 > 0\<close>,
  \<open>donate0\<close> strictly increases \<open>k\<close> and strictly decreases the price. A pool whose
  \<open>r1\<close> is \<open>0\<close> has \<open>k = 0\<close> before and after. On the pool with \<open>r0 = 2\<^bsup>60\<^esup>\<close> and
  \<open>r1 = 1\<close> the price is the double \<open>2\<^bsup>-60\<^esup>\<close>, and after \<open>donate0 1\<close> the quotient
  \<open>1 / (2\<^bsup>60\<^esup> + 1)\<close> rounds to the same double.
\<close>

theorem donate0_not_strict_counterexample:
  "0 < r0 (init ''ab12'' 5 0) \<and> (0::int) < 3
   \<and> \<not> k_of (init ''ab12'' 5 0) < k_of (snd (donate0 (init ''ab12'' 5 0) 3))
   \<and> 0 < r0 (init ''ab12'' (2 ^ 60) 1) \<and> (0::int) < 1
   \<and> price0 (init ''ab12'' (2 ^ 60) 1) = Inr (1 / 2 ^ 60)
   \<and> fst (donate0 (init ''ab12'' (2 ^ 60) 1) 1) = Inr (1 / 2 ^ 60)"
  by (simp add: donate0_eq price0_def k_of_def init_def int_truediv_small
      int_truediv_small_next)

text \<open>
  C7, amended. For every pool with \<open>r0 > 0\<close> and every \<open>a0 > 0\<close>, \<open>donate0\<close> adds exactly
  \<open>a0\<close> to \<open>r0\<close>, leaves \<open>r1\<close> as it is and returns, or raises, what \<open>price0\<close> of the
  updated pool does. When \<open>r1 > 0\<close>, \<open>k\<close> strictly increases and the exact quotient
  \<open>r1 / r0\<close> strictly decreases. When \<open>r1 \<ge> 0\<close> and \<open>price0\<close> returned a double before the
  call, \<open>donate0\<close> returns a double that is not greater; it can be equal. When \<open>r1 = 0\<close>,
  \<open>k\<close> and the price are \<open>0\<close> before and after.
\<close>

theorem donate0_spec:
  assumes "0 < r0 self" and "0 < a0"
  shows "r0 (snd (donate0 self a0)) = r0 self + a0
       \<and> r1 (snd (donate0 self a0)) = r1 self
       \<and> fst (donate0 self a0) = price0 (snd (donate0 self a0))
       \<and> (0 < r1 self \<longrightarrow>
            k_of self < k_of (snd (donate0 self a0))
          \<and> rat_of_int (r1 self) / rat_of_int (r0 self + a0)
              < rat_of_int (r1 self) / rat_of_int (r0 self))
       \<and> (0 \<le> r1 self \<longrightarrow>
            (\<forall>p. price0 self = Inr p \<longrightarrow>
               (\<exists>p'. fst (donate0 self a0) = Inr p' \<and> p' \<le> p)))
       \<and> (r1 self = 0 \<longrightarrow>
            k_of self = 0 \<and> k_of (snd (donate0 self a0)) = 0
          \<and> price0 self = Inr 0 \<and> fst (donate0 self a0) = Inr 0)"
proof -
  have pos: "0 < r0 self + a0" using assms by simp
  have f: "r0 (snd (donate0 self a0)) = r0 self + a0"
    "r1 (snd (donate0 self a0)) = r1 self"
    "fst (donate0 self a0) = price0 (snd (donate0 self a0))"
    by (simp_all add: donate0_eq)
  have after: "fst (donate0 self a0) = int_truediv (r1 self) (r0 self + a0)"
    by (simp add: donate0_eq price0_def)
  have c: "rat_of_int (r1 self) / rat_of_int (r0 self + a0)
             < rat_of_int (r1 self) / rat_of_int (r0 self)" if "0 < r1 self"
  proof -
    have "rat_of_int (r0 self) < rat_of_int (r0 self + a0)"
      using assms(2) by simp
    moreover have "0 < rat_of_int (r1 self)" using that by simp
    moreover have "0 < rat_of_int (r0 self + a0) * rat_of_int (r0 self)"
      using assms(1) pos by (simp only: of_int_0_less_iff zero_less_mult_iff) simp
    ultimately show ?thesis
      by (rule divide_strict_left_mono)
  qed
  have d: "k_of self < k_of (snd (donate0 self a0))" if "0 < r1 self"
    using that assms(2) by (simp add: donate0_eq k_of_def algebra_simps)
  have e: "k_of self = 0 \<and> k_of (snd (donate0 self a0)) = 0
           \<and> price0 self = Inr 0 \<and> fst (donate0 self a0) = Inr 0" if "r1 self = 0"
    using that assms(1) pos by (simp add: after price0_def k_of_def donate0_eq int_truediv_zero)
  have g: "\<exists>p'. fst (donate0 self a0) = Inr p' \<and> p' \<le> p"
    if "0 \<le> r1 self" and "price0 self = Inr p" for p
  proof (cases "r1 self = 0")
    case True
    with e that(2) show ?thesis by simp
  next
    case False
    with that(1) have r1: "0 < r1 self" by simp
    have "r0 self \<le> r0 self + a0" using assms(2) by simp
    moreover have "int_truediv (r1 self) (r0 self) = Inr p"
      using that(2) by (simp add: price0_def)
    ultimately show ?thesis
      unfolding after using r1 assms(1) pos by (intro int_truediv_mono) simp_all
  qed
  show ?thesis
    using c d e f g by blast
qed

theorem donate0_spec_witness:
  "price0 (init ''ab12'' 10000 10000) = Inr 1
   \<and> donate0 (init ''ab12'' 10000 10000) 10000 = (Inr (1 / 2), init ''ab12'' 20000 10000)
   \<and> k_of (init ''ab12'' 10000 10000) < k_of (init ''ab12'' 20000 10000)
   \<and> rat_of_int 10000 / rat_of_int (10000 + 10000) < rat_of_int 10000 / rat_of_int 10000
   \<and> donate0 (init ''ab12'' 5 0) 3 = (Inr 0, init ''ab12'' 8 0)"
  using donate0_spec [of "init ''ab12'' 10000 10000" 10000]
    donate0_spec [of "init ''ab12'' 5 0" 3]
  by (simp add: donate0_eq price0_def k_of_def init_def int_truediv_one int_truediv_half
      int_truediv_zero)

text \<open>
  C8. With \<open>r0 > 0\<close>, \<open>r1 > 0\<close>, \<open>a0 > 0\<close> and a call of \<open>sell0\<close> that returns \<open>a1\<close>, the
  product after the trade, \<open>(r0 + a0) * (r1 - a1)\<close>, is at most \<open>r0 * r1\<close> and falls short of
  it by less than \<open>r0 + a0\<close>: the payout exceeds the exact real payout
  \<open>r1 - r0 * r1 / (r0 + a0)\<close> by less than one unit.
\<close>

theorem sell0_product_deficit:
  assumes "0 < r0 self" and "0 < r1 self" and "0 < a0"
    and "sell0 self a0 = (Inr a1, self')"
  shows "(r0 self + a0) * (r1 self - a1) \<le> r0 self * r1 self
       \<and> r0 self * r1 self - (r0 self + a0) * (r1 self - a1) < r0 self + a0
       \<and> k_of self' = (r0 self + a0) * (r1 self - a1)
       \<and> 0 \<le> real_of_int a1
              - (real_of_int (r1 self)
                 - real_of_int (r0 self * r1 self) / real_of_int (r0 self + a0))
       \<and> real_of_int a1
           - (real_of_int (r1 self)
              - real_of_int (r0 self * r1 self) / real_of_int (r0 self + a0)) < 1"
proof -
  define k where "k = r0 self * r1 self"
  define d where "d = r0 self + a0"
  have d: "0 < d" using assms by (simp add: d_def)
  then have nz: "r0 self + a0 \<noteq> 0" by (simp add: d_def)
  have q: "quoteSell0 self a0 = Inr a1"
    and s': "self' = self\<lparr>r0 := r0 self + a0, r1 := r1 self - a1\<rparr>"
    using assms(4) by (auto simp: sell0_def split: sum.splits)
  from q have a1: "a1 = r1 self - k div d"
    unfolding quoteSell0_nonzero [OF nz] k_def d_def by (simp split: if_splits)
  then have p: "r1 self - a1 = k div d" by simp
  have lo: "d * (k div d) \<le> k" and hi: "k - d * (k div d) < d"
    using floor_div_int_bounds [OF d, of k] by simp_all
  have rl: "real_of_int (k div d) \<le> real_of_int k / real_of_int d"
    and rh: "real_of_int k / real_of_int d < real_of_int (k div d) + 1"
    using floor_divide_of_int_eq [of k d, where ?'a = real] by linarith+
  have "real_of_int a1 - (real_of_int (r1 self) - real_of_int k / real_of_int d)
          = real_of_int k / real_of_int d - real_of_int (k div d)"
    by (simp add: a1)
  with rl rh have r: "0 \<le> real_of_int a1 - (real_of_int (r1 self) - real_of_int k / real_of_int d)"
    "real_of_int a1 - (real_of_int (r1 self) - real_of_int k / real_of_int d) < 1"
    by simp_all
  have ks: "k_of self' = d * (r1 self - a1)"
    by (simp add: s' k_of_def d_def)
  have lo': "d * (r1 self - a1) \<le> k" and hi': "k - d * (r1 self - a1) < d"
    using lo hi by (simp_all only: p)
  show ?thesis
    using lo' hi' r ks unfolding k_def d_def by simp
qed

theorem sell0_product_deficit_witness:
  "sell0 (init ''ab12'' 10 10) 3 = (Inr 3, init ''ab12'' 13 7)
   \<and> (10 + 3) * (10 - 3) \<le> (10::int) * 10
   \<and> (10::int) * 10 - (10 + 3) * (10 - 3) < 10 + 3
   \<and> k_of (init ''ab12'' 13 7) = 91"
  using sell0_product_deficit [of "init ''ab12'' 10 10" 3 3 "init ''ab12'' 13 7"]
  by (simp add: sell0_def quoteSell0_def init_def k_of_def)

text \<open>
  C9. The pool constructed with \<open>r0 = r1 = 10000\<close> has \<open>k = 100000000\<close> and price \<open>1\<close>;
  \<open>sell0 10000\<close> returns \<open>5000\<close> and leaves \<open>r0 = 20000\<close>, \<open>r1 = 5000\<close> with price \<open>1/4\<close>;
  on the same initial pool \<open>buy0 90\<close> returns \<open>91\<close> and leaves \<open>r0 = 9910\<close>,
  \<open>r1 = 10091\<close>.
\<close>

theorem concrete_scenario:
  "k_of (init i 10000 10000) = 100000000
   \<and> price0 (init i 10000 10000) = Inr 1
   \<and> sell0 (init i 10000 10000) 10000 = (Inr 5000, init i 20000 5000)
   \<and> price0 (init i 20000 5000) = Inr (1 / 4)
   \<and> buy0 (init i 10000 10000) 90 = (Inr 91, init i 9910 10091)"
  by (simp add: k_of_def price0_def sell0_def quoteSell0_def buy0_def quoteBuy0_def
      divup_def init_def int_truediv_one int_truediv_quarter)

text \<open>
  C10. With reserves \<open>r0 > 0\<close>, \<open>r1 > 0\<close> and an amount \<open>0 < a0 < r0\<close>, \<open>quoteBuy0\<close>, and
  so \<open>buy0\<close>, returns a payment \<open>a1 \<ge> 1\<close>.
\<close>

theorem quoteBuy0_at_least_one:
  assumes "0 < r0 self" and "0 < r1 self" and "0 < a0" and "a0 < r0 self"
  shows "\<exists>a1. quoteBuy0 self a0 = Inr a1 \<and> fst (buy0 self a0) = Inr a1 \<and> 1 \<le> a1"
proof -
  define d where "d = r0 self - a0"
  define c where "c = (r0 self * r1 self + (r0 self - a0 - 1)) div (r0 self - a0)"
  have d: "0 < d" "d < r0 self"
    using assms by (simp_all add: d_def)
  have "d * r1 self < r0 self * r1 self"
    using d assms(2) by simp
  also have "r0 self * r1 self \<le> d * c"
    unfolding c_def d_def using assms(4) by (rule buy0_paid_bounds(1))
  finally have "r1 self < c"
    using d(1) by simp
  then have "1 \<le> c - r1 self" by simp
  moreover have "quoteBuy0 self a0 = Inr (c - r1 self)"
    unfolding c_def using assms(4) by (rule quoteBuy0_below)
  moreover have "fst (buy0 self a0) = Inr (c - r1 self)"
    using buy0_below [OF assms(4)] by (simp add: c_def)
  ultimately show ?thesis by simp
qed

theorem quoteBuy0_at_least_one_witness:
  "quoteBuy0 (init ''ab12'' 1000 1) 1 = Inr 1
   \<and> fst (buy0 (init ''ab12'' 1000 1) 1) = Inr 1"
  using quoteBuy0_at_least_one [of "init ''ab12'' 1000 1" 1]
  by (simp add: buy0_def quoteBuy0_def divup_def init_def)

end
